theory Spec2Isabelle
  imports Main
begin

section \<open>The LS-8 emulator of \<^verbatim>\<open>cpu.py\<close>\<close>

text \<open>
  The class \<^verbatim>\<open>CPU\<close> is embedded as a record of its attributes together with the
  lines written to standard output. Python integers are unbounded, so every register,
  memory cell, the program counter and the flags are of type \<open>int\<close>; nothing in the
  source reduces a value modulo 256. A method that mutates the object takes the state and
  returns the new one. A raised exception is the left summand of the result and carries
  the state in which it was raised.

  The handlers index \<^verbatim>\<open>self.memory\<close> and \<^verbatim>\<open>self.register\<close> directly; \<open>ram_read\<close> and
  \<open>ram_write\<close>, which do nothing but this indexing, stand for both the methods of these
  names and the direct accesses. The methods \<^verbatim>\<open>load\<close> (reading a program file) and
  \<^verbatim>\<open>trace\<close> (diagnostic printing) are not called from \<^verbatim>\<open>run\<close> and are left out.
\<close>

subsection \<open>Opcodes\<close>

definition POP :: int where "POP = 0b01000110"
definition PUSH :: int where "PUSH = 0b01000101"
definition CALL :: int where "CALL = 0b01010000"
definition RET :: int where "RET = 0b00010001"
definition JMP :: int where "JMP = 0b01010100"
definition JNE :: int where "JNE = 0b01010110"
definition JEQ :: int where "JEQ = 0b01010101"
definition ADD :: int where "ADD = 0b10100000"
definition MUL :: int where "MUL = 0b10100010"
definition CMP :: int where "CMP = 0b10100111"
definition HLT :: int where "HLT = 0b00000001"
definition LDI :: int where "LDI = 0b10000010"
definition PRN :: int where "PRN = 0b01000111"

subsection \<open>State, exceptions, results\<close>

record cpu =
  register :: "int list"
  memory :: "int list"
  pc :: int
  fl :: int
  sp :: int
  running :: "bool option"
  stdout :: "string list"

text \<open>
  \<open>running\<close> is the attribute that only \<^verbatim>\<open>handle_hlt\<close> creates (\<open>None\<close> while it
  does not exist). The dispatch table \<^verbatim>\<open>self.branchtable\<close> is filled once by the
  constructor and never written again; it is the constant \<open>branchtable\<close> below.
\<close>

datatype error =
  IndexError
  | Exception string
  | SystemExit int

type_synonym 'a result = "(error \<times> cpu) + 'a"

definition and_then :: "'a result \<Rightarrow> ('a \<Rightarrow> 'b result) \<Rightarrow> 'b result" where
  "and_then m f = (case m of Inl e \<Rightarrow> Inl e | Inr x \<Rightarrow> f x)"

subsection \<open>Python list indexing\<close>

text \<open>
  \<^verbatim>\<open>xs[i]\<close> counts a negative \<open>i\<close> from the end and raises \<^verbatim>\<open>IndexError\<close> outside
  \<open>-len(xs) \<le> i < len(xs)\<close>, for reading and for writing alike.
\<close>

definition valid_index :: "'a list \<Rightarrow> int \<Rightarrow> bool" where
  "valid_index xs i \<longleftrightarrow> - int (length xs) \<le> i \<and> i < int (length xs)"

definition position :: "'a list \<Rightarrow> int \<Rightarrow> nat" where
  "position xs i = nat (if i < 0 then i + int (length xs) else i)"

definition getitem :: "'a list \<Rightarrow> int \<Rightarrow> 'a option" where
  "getitem xs i = (if valid_index xs i then Some (xs ! position xs i) else None)"

definition setitem :: "'a list \<Rightarrow> int \<Rightarrow> 'a \<Rightarrow> 'a list option" where
  "setitem xs i v = (if valid_index xs i then Some (xs[position xs i := v]) else None)"

definition reg_get :: "cpu \<Rightarrow> int \<Rightarrow> int result" where
  "reg_get s i = (case getitem (register s) i of None \<Rightarrow> Inl (IndexError, s) | Some v \<Rightarrow> Inr v)"

definition reg_set :: "cpu \<Rightarrow> int \<Rightarrow> int \<Rightarrow> cpu result" where
  "reg_set s i v =
     (case setitem (register s) i v of None \<Rightarrow> Inl (IndexError, s)
      | Some rs \<Rightarrow> Inr (s\<lparr>register := rs\<rparr>))"

definition ram_read :: "cpu \<Rightarrow> int \<Rightarrow> int result" where
  "ram_read s address =
     (case getitem (memory s) address of None \<Rightarrow> Inl (IndexError, s) | Some v \<Rightarrow> Inr v)"

definition ram_write :: "cpu \<Rightarrow> int \<Rightarrow> int \<Rightarrow> cpu result" where
  "ram_write s address v =
     (case setitem (memory s) address v of None \<Rightarrow> Inl (IndexError, s)
      | Some m \<Rightarrow> Inr (s\<lparr>memory := m\<rparr>))"

text \<open>An element of the operand list: \<^verbatim>\<open>operands[k]\<close> for the literal \<open>k\<close>.\<close>

definition operand :: "cpu \<Rightarrow> int list \<Rightarrow> int \<Rightarrow> int result" where
  "operand s operands k =
     (case getitem operands k of None \<Rightarrow> Inl (IndexError, s) | Some v \<Rightarrow> Inr v)"

subsection \<open>Printing\<close>

fun decimal :: "nat \<Rightarrow> string" where
  "decimal n =
     (if n < 10 then [char_of (48 + n)]
      else decimal (n div 10) @ [char_of (48 + n mod 10)])"

declare decimal.simps [simp del]

definition str_int :: "int \<Rightarrow> string" where
  "str_int i = (if i < 0 then CHR ''-'' # decimal (nat (- i)) else decimal (nat i))"

definition print :: "string \<Rightarrow> cpu \<Rightarrow> cpu" where
  "print line s = s\<lparr>stdout := stdout s @ [line]\<rparr>"

subsection \<open>The constructor\<close>

definition init :: cpu where
  "init =
     \<lparr>register = (replicate 8 0)[7 := 0xf4], memory = replicate 256 0, pc = 0, fl = 0,
      sp = 7, running = None, stdout = []\<rparr>"

subsection \<open>Stack instructions\<close>

definition push :: "int list \<Rightarrow> cpu \<Rightarrow> cpu result" where
  "push operands s =
     and_then (reg_get s (sp s)) (\<lambda>old_sp.
     and_then (reg_set s (sp s) (old_sp - 1)) (\<lambda>s1.
     and_then (ram_read s1 (pc s1 + 1)) (\<lambda>reg_num.
     and_then (reg_get s1 reg_num) (\<lambda>reg_value.
     and_then (reg_get s1 (sp s1)) (\<lambda>top.
     and_then (ram_write s1 top reg_value) (\<lambda>s2.
     Inr (s2\<lparr>pc := pc s2 + 2\<rparr>)))))))"

definition pop :: "int list \<Rightarrow> cpu \<Rightarrow> cpu result" where
  "pop operands s =
     and_then (reg_get s (sp s)) (\<lambda>top.
     and_then (ram_read s top) (\<lambda>val.
     and_then (ram_read s (pc s + 1)) (\<lambda>reg_num.
     and_then (reg_set s reg_num val) (\<lambda>s1.
     and_then (reg_get s1 (sp s1)) (\<lambda>cur_sp.
     and_then (reg_set s1 (sp s1) (cur_sp + 1)) (\<lambda>s2.
     Inr (s2\<lparr>pc := pc s2 + 2\<rparr>)))))))"

subsection \<open>The ALU\<close>

text \<open>
  The comparison reads both registers, then takes the first branch of the chain
  \<^verbatim>\<open>==\<close>, \<^verbatim>\<open><\<close>, \<^verbatim>\<open>>\<close> that holds; the chain's own \<^verbatim>\<open>else\<close> raises as the outer one
  does.
\<close>

definition alu :: "string \<Rightarrow> int \<Rightarrow> int \<Rightarrow> cpu \<Rightarrow> cpu result" where
  "alu op reg_a reg_b s =
     (if op = ''ADD'' then
        and_then (reg_get s reg_a) (\<lambda>a.
        and_then (reg_get s reg_b) (\<lambda>b.
        reg_set s reg_a (a + b)))
      else if op = ''MUL'' then
        and_then (reg_get s reg_a) (\<lambda>a.
        and_then (reg_get s reg_b) (\<lambda>b.
        reg_set s reg_a (a * b)))
      else if op = ''CMP'' then
        and_then (reg_get s reg_a) (\<lambda>a.
        and_then (reg_get s reg_b) (\<lambda>b.
        if a = b then Inr (s\<lparr>fl := 0b00000001\<rparr>)
        else if a < b then Inr (s\<lparr>fl := 0b00000100\<rparr>)
        else if a > b then Inr (s\<lparr>fl := 0b00000010\<rparr>)
        else Inl (Exception ''Unsupported ALU operation'', s)))
      else Inl (Exception ''Unsupported ALU operation'', s))"

subsection \<open>Handlers\<close>

definition handle_hlt :: "int list \<Rightarrow> cpu \<Rightarrow> cpu result" where
  "handle_hlt operands s =
     Inl (SystemExit 1, (print ''Halted!'' s)\<lparr>running := Some False\<rparr>)"

definition handle_ldi :: "int list \<Rightarrow> cpu \<Rightarrow> cpu result" where
  "handle_ldi operands s =
     and_then (operand s operands 1) (\<lambda>v.
     and_then (operand s operands 0) (\<lambda>r.
     and_then (reg_set s r v) (\<lambda>s1.
     Inr (s1\<lparr>pc := pc s1 + 3\<rparr>))))"

definition handle_prn :: "int list \<Rightarrow> cpu \<Rightarrow> cpu result" where
  "handle_prn operands s =
     and_then (operand s operands 0) (\<lambda>r.
     and_then (reg_get s r) (\<lambda>v.
     let s1 = print (str_int v) s in
     Inr (s1\<lparr>pc := pc s1 + 2\<rparr>)))"

definition handle_mul :: "int list \<Rightarrow> cpu \<Rightarrow> cpu result" where
  "handle_mul operands s =
     and_then (operand s operands 0) (\<lambda>a.
     and_then (operand s operands 1) (\<lambda>b.
     and_then (alu ''MUL'' a b s) (\<lambda>s1.
     Inr (s1\<lparr>pc := pc s1 + 3\<rparr>))))"

definition handle_add :: "int list \<Rightarrow> cpu \<Rightarrow> cpu result" where
  "handle_add operands s =
     and_then (operand s operands 0) (\<lambda>a.
     and_then (operand s operands 1) (\<lambda>b.
     and_then (alu ''ADD'' a b s) (\<lambda>s1.
     Inr (s1\<lparr>pc := pc s1 + 3\<rparr>))))"

definition handle_cmp :: "int list \<Rightarrow> cpu \<Rightarrow> cpu result" where
  "handle_cmp operands s =
     and_then (operand s operands 0) (\<lambda>a.
     and_then (operand s operands 1) (\<lambda>b.
     and_then (alu ''CMP'' a b s) (\<lambda>s1.
     Inr (s1\<lparr>pc := pc s1 + 3\<rparr>))))"

definition call :: "int list \<Rightarrow> cpu \<Rightarrow> cpu result" where
  "call operands s =
     and_then (reg_get s (sp s)) (\<lambda>old_sp.
     and_then (reg_set s (sp s) (old_sp - 1)) (\<lambda>s1.
     and_then (reg_get s1 (sp s1)) (\<lambda>top.
     and_then (ram_write s1 top (pc s1 + 2)) (\<lambda>s2.
     and_then (ram_read s2 (pc s2 + 1)) (\<lambda>reg_num.
     and_then (reg_get s2 reg_num) (\<lambda>target.
     Inr (s2\<lparr>pc := target\<rparr>)))))))"

definition ret :: "int list \<Rightarrow> cpu \<Rightarrow> cpu result" where
  "ret operands s =
     and_then (reg_get s (sp s)) (\<lambda>top.
     and_then (ram_read s top) (\<lambda>addr.
     let s1 = s\<lparr>pc := addr\<rparr> in
     and_then (reg_get s1 (sp s1)) (\<lambda>cur_sp.
     reg_set s1 (sp s1) (cur_sp + 1))))"

definition jmp :: "int list \<Rightarrow> cpu \<Rightarrow> cpu result" where
  "jmp operands s =
     and_then (operand s operands 0) (\<lambda>r.
     and_then (reg_get s r) (\<lambda>target.
     Inr (s\<lparr>pc := target\<rparr>)))"

text \<open>
  The two conditional jumps test \<^verbatim>\<open>(self.fl & 0b00000001) is 0\<close> and \<^verbatim>\<open>... is 1\<close>. The
  result of the mask is 0 or 1, integers that CPython keeps as single objects, so the
  identity test decides as equality does.
\<close>

definition jne :: "int list \<Rightarrow> cpu \<Rightarrow> cpu result" where
  "jne operands s =
     (if and (fl s) 0b00000001 = 0 then
        and_then (operand s operands 0) (\<lambda>r.
        and_then (reg_get s r) (\<lambda>target.
        Inr (s\<lparr>pc := target\<rparr>)))
      else Inr (s\<lparr>pc := pc s + 2\<rparr>))"

definition jeq :: "int list \<Rightarrow> cpu \<Rightarrow> cpu result" where
  "jeq operands s =
     (if and (fl s) 0b00000001 = 1 then
        and_then (operand s operands 0) (\<lambda>r.
        and_then (reg_get s r) (\<lambda>target.
        Inr (s\<lparr>pc := target\<rparr>)))
      else Inr (s\<lparr>pc := pc s + 2\<rparr>))"

subsection \<open>Dispatch and the fetch-decode-execute loop\<close>

definition branchtable :: "int \<Rightarrow> (int list \<Rightarrow> cpu \<Rightarrow> cpu result) option" where
  "branchtable =
     map_of
       [(HLT, handle_hlt), (LDI, handle_ldi), (PRN, handle_prn), (MUL, handle_mul),
        (ADD, handle_add), (CMP, handle_cmp), (PUSH, push), (POP, pop), (CALL, call),
        (RET, ret), (JMP, jmp), (JNE, jne), (JEQ, jeq)]"

definition operand_count :: "int \<Rightarrow> int" where
  "operand_count ir = and (drop_bit 6 ir) 0b00000011"

text \<open>
  The inner \<^verbatim>\<open>for\<close> loop over \<^verbatim>\<open>range(1, operand_count + 1)\<close>: the offsets still to
  visit and the list built so far.
\<close>

fun read_operands :: "cpu \<Rightarrow> int list \<Rightarrow> int list \<Rightarrow> int list result" where
  "read_operands s [] operands = Inr operands"
| "read_operands s (i # rest) operands =
     and_then (ram_read s (pc s + i)) (\<lambda>v. read_operands s rest (operands @ [v]))"

text \<open>One pass through the body of \<^verbatim>\<open>while running\<close>.\<close>

definition step :: "cpu \<Rightarrow> cpu result" where
  "step s =
     and_then (ram_read s (pc s)) (\<lambda>ir.
     and_then (read_operands s [1 .. operand_count ir] []) (\<lambda>operands.
     case branchtable ir of
       Some handler \<Rightarrow> handler operands s
     | None \<Rightarrow> Inr (print ''Instruction not found!'' s)))"

text \<open>
  The local \<^verbatim>\<open>running\<close> is never set to false, so the loop is left by an exception
  only: \<open>loop\<close> returns the exception and the state it was raised in, and \<open>None\<close> is a
  run that never ends.
\<close>

partial_function (option) loop :: "cpu \<Rightarrow> (error \<times> cpu) option" where
  "loop s = (case step s of Inl e \<Rightarrow> Some e | Inr s' \<Rightarrow> loop s')"

definition run :: "cpu \<Rightarrow> (error \<times> cpu) option" where
  "run s = loop (print ''Running CPU...'' s)"

text \<open>\<open>steps n\<close> is \<open>n\<close> passes through the loop body, stopping at an exception.\<close>

fun steps :: "nat \<Rightarrow> cpu \<Rightarrow> cpu result" where
  "steps 0 s = Inr s"
| "steps (Suc n) s = and_then (step s) (steps n)"

subsection \<open>Well-formed states\<close>

text \<open>
  What the constructor establishes and no method changes: eight registers, 256 memory
  cells, and \<^verbatim>\<open>self.sp\<close> naming register 7.
\<close>

definition cpu_inv :: "cpu \<Rightarrow> bool" where
  "cpu_inv s \<longleftrightarrow> length (register s) = 8 \<and> length (memory s) = 256 \<and> sp s = 7"

section \<open>Basic facts\<close>

lemmas opcode_defs =
  POP_def PUSH_def CALL_def RET_def JMP_def JNE_def JEQ_def
  ADD_def MUL_def CMP_def HLT_def LDI_def PRN_def

lemma and_then_Inr: "and_then (Inr x) f = f x"
  by (simp add: and_then_def)

lemma and_then_Inl: "and_then (Inl e) f = Inl e"
  by (simp add: and_then_def)

lemma getitem_in_range:
  "0 \<le> i \<Longrightarrow> i < int (length xs) \<Longrightarrow> getitem xs i = Some (xs ! nat i)"
  by (simp add: getitem_def valid_index_def position_def)

lemma setitem_in_range:
  "0 \<le> i \<Longrightarrow> i < int (length xs) \<Longrightarrow> setitem xs i v = Some (xs[nat i := v])"
  by (simp add: setitem_def valid_index_def position_def)

lemma reg_get_in_range:
  "length (register s) = 8 \<Longrightarrow> 0 \<le> r \<Longrightarrow> r \<le> 7 \<Longrightarrow> reg_get s r = Inr (register s ! nat r)"
  by (simp add: reg_get_def getitem_in_range)

lemma reg_set_in_range:
  "length (register s) = 8 \<Longrightarrow> 0 \<le> r \<Longrightarrow> r \<le> 7 \<Longrightarrow>
   reg_set s r v = Inr (s\<lparr>register := (register s)[nat r := v]\<rparr>)"
  by (simp add: reg_set_def setitem_in_range)

lemma operand_0: "operand s (a # rest) 0 = Inr a"
  by (simp add: operand_def getitem_def valid_index_def position_def)

lemma operand_1: "operand s (a # b # rest) 1 = Inr b"
  by (simp add: operand_def getitem_def valid_index_def position_def)

lemma init_register: "register init = [0, 0, 0, 0, 0, 0, 0, 244]"
  by code_simp

lemma init_fields:
  "length (memory init) = 256" "pc init = 0" "fl init = 0" "sp init = 7" "stdout init = []"
  by (simp_all add: init_def)

lemma cpu_inv_init: "cpu_inv init"
  by (simp add: cpu_inv_def init_def)

section \<open>The ALU\<close>

lemma alu_ADD:
  assumes "length (register s) = 8" "0 \<le> a" "a \<le> 7" "0 \<le> b" "b \<le> 7"
  shows "alu ''ADD'' a b s =
    Inr (s\<lparr>register := (register s)[nat a := register s ! nat a + register s ! nat b]\<rparr>)"
  using assms by (simp add: alu_def reg_get_in_range reg_set_in_range and_then_Inr)

lemma alu_MUL:
  assumes "length (register s) = 8" "0 \<le> a" "a \<le> 7" "0 \<le> b" "b \<le> 7"
  shows "alu ''MUL'' a b s =
    Inr (s\<lparr>register := (register s)[nat a := register s ! nat a * register s ! nat b]\<rparr>)"
  using assms by (simp add: alu_def reg_get_in_range reg_set_in_range and_then_Inr)

lemma alu_CMP:
  assumes "length (register s) = 8" "0 \<le> a" "a \<le> 7" "0 \<le> b" "b \<le> 7"
  shows "alu ''CMP'' a b s =
    Inr (s\<lparr>fl := (if register s ! nat a = register s ! nat b then 1
                  else if register s ! nat a < register s ! nat b then 4 else 2)\<rparr>)"
  using assms by (simp add: alu_def reg_get_in_range reg_set_in_range and_then_Inr)

lemma flag_bits:
  "bit (1::int) 0" "\<not> bit (1::int) 1" "\<not> bit (1::int) 2"
  "\<not> bit (2::int) 0" "bit (2::int) 1" "\<not> bit (2::int) 2"
  "\<not> bit (4::int) 0" "\<not> bit (4::int) 1" "bit (4::int) 2"
  by (simp_all add: bit_iff_odd)

lemma equal_flag_mask:
  "and (x::int) 1 = 1 \<longleftrightarrow> bit x 0" "and (x::int) 1 = 0 \<longleftrightarrow> \<not> bit x 0"
  by (simp_all add: and_one_eq bit_0 mod_2_eq_odd)

text \<open>
  C1 (as amended). ADD stores the sum and MUL the product of the two registers in
  register \<open>a\<close>, as unbounded integers: no reduction modulo 256 takes place, in the ALU
  or in the handlers, which add 3 to the program counter. The stored value is the one
  the wrap-around law names exactly when it lies in 0..255.
\<close>

theorem alu_add_mul_unbounded:
  assumes "cpu_inv s" and "0 \<le> a" and "a \<le> 7" and "0 \<le> b" and "b \<le> 7"
  shows "alu ''ADD'' a b s =
           Inr (s\<lparr>register := (register s)[nat a := register s ! nat a + register s ! nat b]\<rparr>)
       \<and> alu ''MUL'' a b s =
           Inr (s\<lparr>register := (register s)[nat a := register s ! nat a * register s ! nat b]\<rparr>)
       \<and> handle_add [a, b] s =
           Inr (s\<lparr>register := (register s)[nat a := register s ! nat a + register s ! nat b],
                 pc := pc s + 3\<rparr>)
       \<and> handle_mul [a, b] s =
           Inr (s\<lparr>register := (register s)[nat a := register s ! nat a * register s ! nat b],
                 pc := pc s + 3\<rparr>)
       \<and> (register s ! nat a + register s ! nat b
            = (register s ! nat a + register s ! nat b) mod 256
          \<longleftrightarrow> 0 \<le> register s ! nat a + register s ! nat b
              \<and> register s ! nat a + register s ! nat b < 256)
       \<and> (register s ! nat a * register s ! nat b
            = (register s ! nat a * register s ! nat b) mod 256
          \<longleftrightarrow> 0 \<le> register s ! nat a * register s ! nat b
              \<and> register s ! nat a * register s ! nat b < 256)"
proof -
  from assms have len: "length (register s) = 8"
    by (simp add: cpu_inv_def)
  have wrap: "x = x mod 256 \<longleftrightarrow> 0 \<le> x \<and> x < 256" for x :: int
    by presburger
  show ?thesis
    using assms(2-5) len
    by (simp add: alu_ADD alu_MUL handle_add_def handle_mul_def operand_0 operand_1
        and_then_Inr wrap [symmetric])
qed

theorem alu_add_mul_unbounded_witness:
  "cpu_inv (init\<lparr>register := [200, 100, 0, 0, 0, 0, 0, 244]\<rparr>)
   \<and> alu ''ADD'' 0 1 (init\<lparr>register := [200, 100, 0, 0, 0, 0, 0, 244]\<rparr>) =
     Inr (init\<lparr>register := [300, 100, 0, 0, 0, 0, 0, 244]\<rparr>)
   \<and> alu ''MUL'' 0 1 (init\<lparr>register := [200, 100, 0, 0, 0, 0, 0, 244]\<rparr>) =
     Inr (init\<lparr>register := [20000, 100, 0, 0, 0, 0, 0, 244]\<rparr>)"
proof -
  have inv: "cpu_inv (init\<lparr>register := [200, 100, 0, 0, 0, 0, 0, 244]\<rparr>)"
    by (simp add: cpu_inv_def init_fields)
  from alu_add_mul_unbounded [OF inv, of 0 1] inv show ?thesis
    by simp
qed

text \<open>
  C1 as stated fails: with 200 and 100 in registers 0 and 1, ADD leaves 300 and MUL
  leaves 20000 in register 0, not 44 and 32.
\<close>

theorem alu_add_wraps_counterexample:
  "alu ''ADD'' 0 1 (init\<lparr>register := [200, 100, 0, 0, 0, 0, 0, 244]\<rparr>) =
     Inr (init\<lparr>register := [300, 100, 0, 0, 0, 0, 0, 244]\<rparr>)
   \<and> (300 :: int) \<noteq> (200 + 100) mod 256
   \<and> alu ''MUL'' 0 1 (init\<lparr>register := [200, 100, 0, 0, 0, 0, 0, 244]\<rparr>) =
     Inr (init\<lparr>register := [20000, 100, 0, 0, 0, 0, 0, 244]\<rparr>)
   \<and> (20000 :: int) \<noteq> (200 * 100) mod 256"
  by (simp add: alu_def reg_get_def reg_set_def getitem_def setitem_def valid_index_def
      position_def and_then_def)

text \<open>
  C2. After CMP on registers \<open>a\<close> and \<open>b\<close> the flags hold exactly one of the bits
  Equal (bit 0), Greater-than (bit 1) and Less-than (bit 2), the one that names the
  outcome of comparing the two values, and no other bit; comparing a register with
  itself sets Equal.
\<close>

theorem cmp_sets_exactly_one_flag:
  assumes "cpu_inv s" and "0 \<le> a" and "a \<le> 7" and "0 \<le> b" and "b \<le> 7"
  shows "\<exists>f. alu ''CMP'' a b s = Inr (s\<lparr>fl := f\<rparr>)
       \<and> handle_cmp [a, b] s = Inr (s\<lparr>fl := f, pc := pc s + 3\<rparr>)
       \<and> (bit f 0 \<longleftrightarrow> register s ! nat a = register s ! nat b)
       \<and> (bit f 1 \<longleftrightarrow> register s ! nat a > register s ! nat b)
       \<and> (bit f 2 \<longleftrightarrow> register s ! nat a < register s ! nat b)
       \<and> (f = 1 \<or> f = 2 \<or> f = 4)
       \<and> ((bit f 0 \<and> \<not> bit f 1 \<and> \<not> bit f 2) \<or> (\<not> bit f 0 \<and> bit f 1 \<and> \<not> bit f 2)
          \<or> (\<not> bit f 0 \<and> \<not> bit f 1 \<and> bit f 2))
       \<and> alu ''CMP'' a a s = Inr (s\<lparr>fl := 1\<rparr>)"
proof -
  let ?x = "register s ! nat a" and ?y = "register s ! nat b"
  let ?f = "if ?x = ?y then 1 else if ?x < ?y then 4 else (2::int)"
  from assms have len: "length (register s) = 8"
    by (simp add: cpu_inv_def)
  have run: "alu ''CMP'' a b s = Inr (s\<lparr>fl := ?f\<rparr>)"
    using len assms(2-5) by (rule alu_CMP)
  have same: "alu ''CMP'' a a s = Inr (s\<lparr>fl := 1\<rparr>)"
    using alu_CMP [OF len assms(2,3) assms(2,3)] by simp
  have handler: "handle_cmp [a, b] s = Inr (s\<lparr>fl := ?f, pc := pc s + 3\<rparr>)"
    by (simp add: handle_cmp_def operand_0 operand_1 and_then_Inr run)
  have bits: "(bit ?f 0 \<longleftrightarrow> ?x = ?y) \<and> (bit ?f 1 \<longleftrightarrow> ?x > ?y) \<and> (bit ?f 2 \<longleftrightarrow> ?x < ?y)"
    by (auto simp: flag_bits)
  have one: "?f = 1 \<or> ?f = 2 \<or> ?f = 4"
    by simp
  have excl: "(bit ?f 0 \<and> \<not> bit ?f 1 \<and> \<not> bit ?f 2) \<or> (\<not> bit ?f 0 \<and> bit ?f 1 \<and> \<not> bit ?f 2)
          \<or> (\<not> bit ?f 0 \<and> \<not> bit ?f 1 \<and> bit ?f 2)"
    by (simp add: flag_bits)
  from run handler bits one excl same show ?thesis
    by blast
qed

theorem cmp_sets_exactly_one_flag_witness:
  "cpu_inv init
   \<and> (\<exists>f. alu ''CMP'' 0 7 init = Inr (init\<lparr>fl := f\<rparr>) \<and> bit f 2 \<and> f = 4)
   \<and> alu ''CMP'' 0 0 init = Inr (init\<lparr>fl := 1\<rparr>)"
proof -
  from cmp_sets_exactly_one_flag [OF cpu_inv_init, of 0 7]
  obtain f where run: "alu ''CMP'' 0 7 init = Inr (init\<lparr>fl := f\<rparr>)"
    and lt: "bit f 2 \<longleftrightarrow> register init ! nat 0 < register init ! nat 7"
    and one: "f = 1 \<or> f = 2 \<or> f = 4"
    and same: "alu ''CMP'' 0 0 init = Inr (init\<lparr>fl := 1\<rparr>)"
    by auto
  from lt have b2: "bit f 2"
    by (simp add: init_register)
  with one have "f = 4"
    by (auto simp: flag_bits)
  with run b2 same cpu_inv_init show ?thesis
    by blast
qed

section \<open>Conditional jumps\<close>

lemma jump_taken:
  assumes "length (register s) = 8" "0 \<le> r" "r \<le> 7"
  shows "and_then (operand s [r] 0) (\<lambda>r. and_then (reg_get s r) (\<lambda>target. Inr (s\<lparr>pc := target\<rparr>)))
         = Inr (s\<lparr>pc := register s ! nat r\<rparr>)"
  using assms by (simp add: operand_0 reg_get_in_range and_then_Inr)

text \<open>
  C7. With the Equal flag (bit 0 of FL) set, JEQ puts the content of register \<open>r\<close> in
  the program counter and JNE adds 2 to it; with the flag clear it is the other way
  round. Nothing else of the state changes.
\<close>

theorem jeq_jne_follow_equal_flag:
  assumes "cpu_inv s" and "0 \<le> r" and "r \<le> 7"
  shows "(bit (fl s) 0 \<longrightarrow>
            jeq [r] s = Inr (s\<lparr>pc := register s ! nat r\<rparr>)
          \<and> jne [r] s = Inr (s\<lparr>pc := pc s + 2\<rparr>))
       \<and> (\<not> bit (fl s) 0 \<longrightarrow>
            jne [r] s = Inr (s\<lparr>pc := register s ! nat r\<rparr>)
          \<and> jeq [r] s = Inr (s\<lparr>pc := pc s + 2\<rparr>))"
proof -
  from assms have len: "length (register s) = 8"
    by (simp add: cpu_inv_def)
  note taken = jump_taken [OF len assms(2,3)]
  show ?thesis
  proof (cases "bit (fl s) 0")
    case True
    then have "and (fl s) 1 = 1"
      by (simp add: equal_flag_mask)
    then show ?thesis
      using True by (simp add: jeq_def jne_def taken)
  next
    case False
    then have "and (fl s) 1 = 0"
      by (simp add: equal_flag_mask)
    then show ?thesis
      using False by (simp add: jeq_def jne_def taken)
  qed
qed

theorem jeq_jne_follow_equal_flag_witness:
  "cpu_inv (init\<lparr>fl := 1\<rparr>) \<and> bit (fl (init\<lparr>fl := 1\<rparr>)) 0
   \<and> jeq [7] (init\<lparr>fl := 1\<rparr>) = Inr (init\<lparr>fl := 1, pc := 244\<rparr>)
   \<and> jne [7] (init\<lparr>fl := 1\<rparr>) = Inr (init\<lparr>fl := 1, pc := 2\<rparr>)
   \<and> cpu_inv (init\<lparr>fl := 4\<rparr>) \<and> \<not> bit (fl (init\<lparr>fl := 4\<rparr>)) 0
   \<and> jne [7] (init\<lparr>fl := 4\<rparr>) = Inr (init\<lparr>fl := 4, pc := 244\<rparr>)
   \<and> jeq [7] (init\<lparr>fl := 4\<rparr>) = Inr (init\<lparr>fl := 4, pc := 2\<rparr>)"
proof -
  have inv: "cpu_inv (init\<lparr>fl := f\<rparr>)" for f
    by (simp add: cpu_inv_def init_fields init_register)
  from jeq_jne_follow_equal_flag [OF inv, of 7 1] jeq_jne_follow_equal_flag [OF inv, of 7 4] inv
  show ?thesis
    by (simp add: flag_bits init_register init_fields)
qed

section \<open>ALU errors\<close>

text \<open>
  C9. The ALU raises the unsupported-operation exception exactly for a tag other than
  ADD, MUL and CMP. For these three tags and two register indices that Python accepts
  it returns normally, whatever the registers hold: the \<^verbatim>\<open>else\<close> that closes the
  comparison chain is never taken. (With an index outside the register file the
  exception is \<^verbatim>\<open>IndexError\<close>.)
\<close>

theorem alu_unsupported_iff:
  "((\<exists>msg s'. alu op a b s = Inl (Exception msg, s'))
      \<longleftrightarrow> op \<notin> {''ADD'', ''MUL'', ''CMP''})
   \<and> (op \<notin> {''ADD'', ''MUL'', ''CMP''}
      \<longrightarrow> alu op a b s = Inl (Exception ''Unsupported ALU operation'', s))
   \<and> (op \<in> {''ADD'', ''MUL'', ''CMP''}
      \<and> valid_index (register s) a \<and> valid_index (register s) b
      \<longrightarrow> (\<exists>s'. alu op a b s = Inr s'))
   \<and> (op \<in> {''ADD'', ''MUL'', ''CMP''}
      \<and> \<not> (valid_index (register s) a \<and> valid_index (register s) b)
      \<longrightarrow> alu op a b s = Inl (IndexError, s))"
proof -
  have other: "alu op a b s = Inl (Exception ''Unsupported ALU operation'', s)"
    if "op \<notin> {''ADD'', ''MUL'', ''CMP''}"
    using that by (simp add: alu_def)
  have good: "\<exists>s'. alu op a b s = Inr s'"
    if "op \<in> {''ADD'', ''MUL'', ''CMP''}" "valid_index (register s) a" "valid_index (register s) b"
    using that
    by (auto simp: alu_def reg_get_def reg_set_def getitem_def setitem_def and_then_def)
  have bad: "alu op a b s = Inl (IndexError, s)"
    if "op \<in> {''ADD'', ''MUL'', ''CMP''}" "\<not> (valid_index (register s) a \<and> valid_index (register s) b)"
    using that
    by (auto simp: alu_def reg_get_def reg_set_def getitem_def setitem_def and_then_def)
  have "op \<notin> {''ADD'', ''MUL'', ''CMP''}" if "alu op a b s = Inl (Exception msg, s')" for msg s'
  proof
    assume tag: "op \<in> {''ADD'', ''MUL'', ''CMP''}"
    show False
    proof (cases "valid_index (register s) a \<and> valid_index (register s) b")
      case True
      with tag good obtain t where "alu op a b s = Inr t"
        by blast
      with that show False
        by simp
    next
      case False
      with tag bad have "alu op a b s = Inl (IndexError, s)"
        by blast
      with that show False
        by simp
    qed
  qed
  with other good bad show ?thesis
    by blast
qed

theorem alu_unsupported_iff_witness:
  "alu ''DIV'' 0 1 init = Inl (Exception ''Unsupported ALU operation'', init)
   \<and> valid_index (register init) 0 \<and> valid_index (register init) 1
   \<and> (\<exists>s'. alu ''CMP'' 0 1 init = Inr s')
   \<and> \<not> valid_index (register init) 8
   \<and> alu ''CMP'' 0 8 init = Inl (IndexError, init)"
proof -
  have v: "valid_index (register init) 0" "valid_index (register init) 1"
    "\<not> valid_index (register init) 8"
    by (simp_all add: valid_index_def init_register)
  from alu_unsupported_iff [of "''DIV''" 0 1 init] alu_unsupported_iff [of "''CMP''" 0 1 init]
    alu_unsupported_iff [of "''CMP''" 0 8 init] v
  show ?thesis
    by simp
qed

section \<open>Reading after writing\<close>

lemma getitem_update:
  assumes "valid_index xs i"
  shows "getitem (xs[position xs i := v]) j =
    (if valid_index xs j \<and> position xs j = position xs i then Some v else getitem xs j)"
proof -
  from assms have "position xs i < length xs"
    by (auto simp: valid_index_def position_def)
  then show ?thesis
    by (auto simp: getitem_def valid_index_def position_def)
qed

lemma ram_read_Inr_iff: "ram_read s a = Inr v \<longleftrightarrow> getitem (memory s) a = Some v"
  by (simp add: ram_read_def split: option.splits)

lemma reg_get_Inr_iff: "reg_get s a = Inr v \<longleftrightarrow> getitem (register s) a = Some v"
  by (simp add: reg_get_def split: option.splits)

lemma ram_read_valid: "ram_read s a = Inr v \<Longrightarrow> valid_index (memory s) a"
  by (simp add: ram_read_Inr_iff getitem_def split: if_splits)

lemma ram_write_valid:
  "valid_index (memory s) a \<Longrightarrow>
   ram_write s a v = Inr (s\<lparr>memory := (memory s)[position (memory s) a := v]\<rparr>)"
  by (simp add: ram_write_def setitem_def)

lemma ram_read_top:
  "valid_index (memory s) a \<Longrightarrow> ram_read s a = Inr (memory s ! position (memory s) a)"
  by (simp add: ram_read_def getitem_def)

section \<open>The stack\<close>

lemma push_effect:
  assumes inv: "cpu_inv s"
    and operand: "ram_read s (pc s + 1) = Inr r"
    and r: "0 \<le> r" "r \<le> 7"
    and slot: "valid_index (memory s) (register s ! 7 - 1)"
  shows "push operands s =
    Inr (s\<lparr>register := (register s)[7 := register s ! 7 - 1],
          memory := (memory s)[position (memory s) (register s ! 7 - 1) :=
                      (register s)[7 := register s ! 7 - 1] ! nat r],
          pc := pc s + 2\<rparr>)"
proof -
  from inv have len: "length (register s) = 8" and sp: "sp s = 7"
    by (simp_all add: cpu_inv_def)
  let ?s1 = "s\<lparr>register := (register s)[7 := register s ! 7 - 1]\<rparr>"
  have dec: "and_then (reg_get s (sp s)) (\<lambda>old_sp. reg_set s (sp s) (old_sp - 1)) = Inr ?s1"
    using len by (simp add: sp reg_get_in_range reg_set_in_range and_then_Inr)
  have len1: "length (register ?s1) = 8"
    using len by simp
  have rd: "ram_read ?s1 (pc s + 1) = Inr r"
    using operand by (simp add: ram_read_Inr_iff)
  have top: "reg_get ?s1 7 = Inr (register s ! 7 - 1)"
    using len by (simp add: reg_get_in_range [OF len1])
  have val: "reg_get ?s1 r = Inr ((register s)[7 := register s ! 7 - 1] ! nat r)"
    using r by (simp add: reg_get_in_range [OF len1])
  have wr: "ram_write ?s1 (register s ! 7 - 1) v =
    Inr (?s1\<lparr>memory := (memory s)[position (memory s) (register s ! 7 - 1) := v]\<rparr>)" for v
    using slot by (simp add: ram_write_valid)
  show ?thesis
    using len
    by (simp add: push_def sp reg_get_in_range reg_set_in_range and_then_Inr rd top val wr)
qed

lemma pop_effect:
  assumes inv: "cpu_inv s"
    and operand: "ram_read s (pc s + 1) = Inr r"
    and r: "0 \<le> r" "r \<le> 7"
    and slot: "valid_index (memory s) (register s ! 7)"
  shows "pop operands s =
    Inr (s\<lparr>register :=
            ((register s)[nat r := memory s ! position (memory s) (register s ! 7)])
              [7 := (register s)[nat r := memory s ! position (memory s) (register s ! 7)] ! 7 + 1],
          pc := pc s + 2\<rparr>)"
proof -
  from inv have len: "length (register s) = 8" and sp: "sp s = 7"
    by (simp_all add: cpu_inv_def)
  let ?val = "memory s ! position (memory s) (register s ! 7)"
  let ?s1 = "s\<lparr>register := (register s)[nat r := ?val]\<rparr>"
  have len1: "length (register ?s1) = 8"
    using len by simp
  have top: "reg_get s (sp s) = Inr (register s ! 7)"
    using len by (simp add: sp reg_get_in_range)
  have rd: "ram_read s (register s ! 7) = Inr ?val"
    using slot by (rule ram_read_top)
  have st: "reg_set s r ?val = Inr ?s1"
    using len r by (simp add: reg_set_in_range)
  have cur: "reg_get ?s1 7 = Inr ((register s)[nat r := ?val] ! 7)"
    using reg_get_in_range [OF len1, of 7] by simp
  have inc: "reg_set ?s1 7 v = Inr (s\<lparr>register := ((register s)[nat r := ?val])[7 := v]\<rparr>)" for v
    using reg_set_in_range [OF len1, of 7 v] by simp
  show ?thesis
    by (simp add: pop_def sp and_then_Inr top [unfolded sp] rd operand st cur inc)
qed


text \<open>
  C10. PUSH of register 7, the stack pointer itself, stores the stack pointer as already
  decremented: the new top of the stack holds the old value minus 1, which is also the
  address of that cell.
\<close>

theorem push_sp_stores_decremented_sp:
  assumes "cpu_inv s" and "ram_read s (pc s + 1) = Inr 7"
    and "valid_index (memory s) (register s ! 7 - 1)"
  shows "\<exists>s'. push operands s = Inr s'
       \<and> register s' ! 7 = register s ! 7 - 1
       \<and> ram_read s' (register s' ! 7) = Inr (register s ! 7 - 1)
       \<and> ram_read s' (register s' ! 7) \<noteq> Inr (register s ! 7)
       \<and> pc s' = pc s + 2"
proof -
  from assms(1) have len: "length (register s) = 8"
    by (simp add: cpu_inv_def)
  let ?top = "register s ! 7 - 1"
  let ?s' = "s\<lparr>register := (register s)[7 := ?top],
          memory := (memory s)[position (memory s) ?top := (register s)[7 := ?top] ! nat 7],
          pc := pc s + 2\<rparr>"
  have run: "push operands s = Inr ?s'"
    using assms(1,2) _ _ assms(3) by (rule push_effect) simp_all
  have reg: "register ?s' ! 7 = ?top"
    using len by simp
  have "getitem (memory ?s') ?top = Some ?top"
    using len assms(3) by (simp add: getitem_update)
  then have mem: "ram_read ?s' (register ?s' ! 7) = Inr ?top"
    using reg by (simp add: ram_read_Inr_iff)
  from run reg mem show ?thesis
    by (intro exI [of _ ?s']) simp
qed

theorem push_sp_stores_decremented_sp_witness:
  "cpu_inv (init\<lparr>memory := [PUSH, 7] @ replicate 254 0\<rparr>)
   \<and> ram_read (init\<lparr>memory := [PUSH, 7] @ replicate 254 0\<rparr>)
        (pc (init\<lparr>memory := [PUSH, 7] @ replicate 254 0\<rparr>) + 1) = Inr 7
   \<and> valid_index (memory (init\<lparr>memory := [PUSH, 7] @ replicate 254 0\<rparr>))
        (register (init\<lparr>memory := [PUSH, 7] @ replicate 254 0\<rparr>) ! 7 - 1)
   \<and> (\<exists>s'. push [7] (init\<lparr>memory := [PUSH, 7] @ replicate 254 0\<rparr>) = Inr s'
         \<and> register s' ! 7 = 243 \<and> ram_read s' 243 = Inr 243)"
proof -
  let ?s = "init\<lparr>memory := [PUSH, 7] @ replicate 254 0\<rparr>"
  have inv: "cpu_inv ?s"
    by (simp add: cpu_inv_def init_fields init_register)
  have operand: "ram_read ?s (pc ?s + 1) = Inr 7"
    by (simp add: ram_read_def getitem_def valid_index_def position_def init_fields)
  have slot: "valid_index (memory ?s) (register ?s ! 7 - 1)"
    by (simp add: valid_index_def init_register)
  from push_sp_stores_decremented_sp [OF inv operand slot, of "[7]"]
  obtain s' where "push [7] ?s = Inr s'" "register s' ! 7 = 243" "ram_read s' 243 = Inr 243"
    by (auto simp: init_register)
  with inv operand slot show ?thesis
    by blast
qed

section \<open>Single instructions through the loop body\<close>

lemma operand_count_values:
  "operand_count HLT = 0" "operand_count RET = 0"
  "operand_count PRN = 1" "operand_count PUSH = 1" "operand_count POP = 1"
  "operand_count CALL = 1" "operand_count JMP = 1" "operand_count JNE = 1"
  "operand_count JEQ = 1"
  "operand_count LDI = 2" "operand_count ADD = 2" "operand_count MUL = 2"
  "operand_count CMP = 2"
  by (simp_all add: operand_count_def opcode_defs)

lemma branchtable_values:
  "branchtable HLT = Some handle_hlt" "branchtable LDI = Some handle_ldi"
  "branchtable PRN = Some handle_prn" "branchtable MUL = Some handle_mul"
  "branchtable ADD = Some handle_add" "branchtable CMP = Some handle_cmp"
  "branchtable PUSH = Some push" "branchtable POP = Some pop"
  "branchtable CALL = Some call" "branchtable RET = Some ret"
  "branchtable JMP = Some jmp" "branchtable JNE = Some jne" "branchtable JEQ = Some jeq"
  by (simp_all add: branchtable_def opcode_defs)

lemma upto_1_1: "[1 .. 1::int] = [1]"
  by (simp add: upto.simps)

lemma upto_1_2: "[1 .. 2::int] = [1, 2]"
  by (simp add: upto.simps)

lemma upto_1_0: "[1 .. 0::int] = []"
  by simp

lemma step_no_operand:
  assumes "ram_read s (pc s) = Inr ir" "operand_count ir = 0" "branchtable ir = Some handler"
  shows "step s = handler [] s"
  using assms by (simp add: step_def and_then_Inr upto_1_0)

lemma step_one_operand:
  assumes "ram_read s (pc s) = Inr ir" "operand_count ir = 1" "branchtable ir = Some handler"
    and "ram_read s (pc s + 1) = Inr a"
  shows "step s = handler [a] s"
  using assms by (simp add: step_def and_then_Inr upto_1_1)

lemma step_two_operands:
  assumes "ram_read s (pc s) = Inr ir" "operand_count ir = 2" "branchtable ir = Some handler"
    and "ram_read s (pc s + 1) = Inr a" "ram_read s (pc s + 2) = Inr b"
  shows "step s = handler [a, b] s"
  using assms by (simp add: step_def and_then_Inr upto_1_2)

section \<open>PUSH followed by POP\<close>

lemma step_PUSH:
  assumes "ram_read s (pc s) = Inr PUSH" "ram_read s (pc s + 1) = Inr r"
  shows "step s = push [r] s"
  using assms(1) operand_count_values(4) branchtable_values(7) assms(2)
  by (rule step_one_operand)

lemma step_POP:
  assumes "ram_read s (pc s) = Inr POP" "ram_read s (pc s + 1) = Inr r"
  shows "step s = pop [r] s"
  using assms(1) operand_count_values(5) branchtable_values(8) assms(2)
  by (rule step_one_operand)

lemma position_list_update: "position (xs[k := v]) i = position xs i"
  by (simp add: position_def)

lemma valid_index_list_update: "valid_index (xs[k := v]) i = valid_index xs i"
  by (simp add: valid_index_def)

lemma position_less: "valid_index xs i \<Longrightarrow> position xs i < length xs"
  by (auto simp: valid_index_def position_def)

lemma and_then_unit: "and_then m Inr = m"
  by (cases m) (simp_all add: and_then_def)

lemma steps_0: "steps 0 = Inr"
  by (rule ext) simp

lemma steps_1: "steps (Suc 0) = step"
  by (rule ext) (simp add: steps_0 and_then_unit)

lemma steps_2: "steps 2 s = and_then (step s) step"
proof -
  have "steps (Suc (Suc 0)) s = and_then (step s) (steps (Suc 0))"
    by simp
  then show ?thesis
    by (simp only: steps_1 numeral_2_eq_2)
qed

text \<open>
  C4 (as amended). For \<open>r\<close> and \<open>r'\<close> in 0..7 that are both the stack pointer
  register 7 or both another register, PUSH \<open>r\<close> followed by POP \<open>r'\<close> leaves in
  register \<open>r'\<close> the value that register \<open>r\<close> held and in register 7 the stack
  pointer from before the PUSH, four bytes further in the program. The cell below the
  stack pointer must be an address of the memory other than the two bytes of the POP
  instruction, which the PUSH would overwrite.
\<close>

theorem push_pop_round_trip:
  assumes inv: "cpu_inv s"
    and code: "ram_read s (pc s) = Inr PUSH" "ram_read s (pc s + 1) = Inr r"
      "ram_read s (pc s + 2) = Inr POP" "ram_read s (pc s + 3) = Inr r'"
    and r: "0 \<le> r" "r \<le> 7" and r': "0 \<le> r'" "r' \<le> 7"
    and both: "r = 7 \<longleftrightarrow> r' = 7"
    and slot: "valid_index (memory s) (register s ! 7 - 1)"
    and apart: "position (memory s) (register s ! 7 - 1) \<noteq> position (memory s) (pc s + 2)"
      "position (memory s) (register s ! 7 - 1) \<noteq> position (memory s) (pc s + 3)"
  shows "\<exists>s2. steps 2 s = Inr s2
       \<and> register s2 ! nat r' = register s ! nat r
       \<and> register s2 ! 7 = register s ! 7
       \<and> pc s2 = pc s + 4"
proof -
  from inv have len: "length (register s) = 8" and mlen: "length (memory s) = 256"
    and sp: "sp s = 7"
    by (simp_all add: cpu_inv_def)
  let ?top = "register s ! 7 - 1"
  let ?w = "(register s)[7 := ?top] ! nat r"
  let ?s1 = "s\<lparr>register := (register s)[7 := ?top],
          memory := (memory s)[position (memory s) ?top := ?w],
          pc := pc s + 2\<rparr>"
  have first: "step s = Inr ?s1"
    using code(1,2) inv r slot by (simp add: step_PUSH push_effect)
  have inv1: "cpu_inv ?s1"
    using inv by (simp add: cpu_inv_def)
  have op1: "ram_read ?s1 (pc ?s1) = Inr POP"
    using code(3) slot apart(1) by (simp add: ram_read_Inr_iff getitem_update)
  have "ram_read ?s1 (pc s + 3) = Inr r'"
    using code(4) slot apart(2) by (simp add: ram_read_Inr_iff getitem_update)
  moreover have "pc ?s1 + 1 = pc s + 3"
    by simp
  ultimately have arg1: "ram_read ?s1 (pc ?s1 + 1) = Inr r'"
    by (simp only:)
  have sp1: "register ?s1 ! 7 = ?top"
    using len by simp
  have slot1: "valid_index (memory ?s1) (register ?s1 ! 7)"
    using slot sp1 by (simp add: valid_index_def)
  have cell: "memory ?s1 ! position (memory ?s1) (register ?s1 ! 7) = ?w"
    using position_less [OF slot] len by (simp add: position_list_update)
  let ?s2 = "?s1\<lparr>register :=
            ((register ?s1)[nat r' := ?w])[7 := (register ?s1)[nat r' := ?w] ! 7 + 1],
          pc := pc ?s1 + 2\<rparr>"
  have "pop [r'] ?s1 =
    Inr (?s1\<lparr>register :=
            ((register ?s1)[nat r' := memory ?s1 ! position (memory ?s1) (register ?s1 ! 7)])
              [7 := (register ?s1)[nat r' := memory ?s1 ! position (memory ?s1) (register ?s1 ! 7)] ! 7 + 1],
          pc := pc ?s1 + 2\<rparr>)"
    using inv1 arg1 r' slot1 by (rule pop_effect)
  then have second: "step ?s1 = Inr ?s2"
    using op1 arg1 by (simp only: step_POP cell)
  have whole: "steps 2 s = Inr ?s2"
    by (simp only: steps_2 first and_then_Inr second)
  have regs: "register ?s2 ! nat r' = register s ! nat r \<and> register ?s2 ! 7 = register s ! 7"
  proof (cases "r = 7")
    case True
    with both have "r' = 7"
      by simp
    with True show ?thesis
      using len by simp
  next
    case False
    with both have "r' \<noteq> 7"
      by simp
    with False r r' have "nat r \<noteq> 7" "nat r' \<noteq> 7" "nat r' < 8"
      by simp_all
    then show ?thesis
      using len by simp
  qed
  have "pc ?s2 = pc s + 4"
    by simp
  with whole regs show ?thesis
    by blast
qed

theorem push_pop_round_trip_witness:
  "cpu_inv (init\<lparr>register := [42, 0, 0, 0, 0, 0, 0, 244],
                  memory := [PUSH, 0, POP, 1] @ replicate 252 0\<rparr>)
   \<and> (\<exists>s2. steps 2 (init\<lparr>register := [42, 0, 0, 0, 0, 0, 0, 244],
                            memory := [PUSH, 0, POP, 1] @ replicate 252 0\<rparr>) = Inr s2
         \<and> register s2 ! 1 = 42 \<and> register s2 ! 7 = 244 \<and> pc s2 = 4)
   \<and> cpu_inv (init\<lparr>memory := [PUSH, 7, POP, 7] @ replicate 252 0\<rparr>)
   \<and> (\<exists>s2. steps 2 (init\<lparr>memory := [PUSH, 7, POP, 7] @ replicate 252 0\<rparr>) = Inr s2
         \<and> register s2 ! 7 = 244 \<and> pc s2 = 4)"
proof -
  let ?s = "init\<lparr>register := [42, 0, 0, 0, 0, 0, 0, 244],
                  memory := [PUSH, 0, POP, 1] @ replicate 252 0\<rparr>"
  let ?u = "init\<lparr>memory := [PUSH, 7, POP, 7] @ replicate 252 0\<rparr>"
  have inv: "cpu_inv ?s"
    by (simp add: cpu_inv_def init_fields)
  have code: "ram_read ?s (pc ?s) = Inr PUSH" "ram_read ?s (pc ?s + 1) = Inr 0"
    "ram_read ?s (pc ?s + 2) = Inr POP" "ram_read ?s (pc ?s + 3) = Inr 1"
    by (simp_all add: ram_read_def getitem_def valid_index_def position_def init_fields)
  have slot: "valid_index (memory ?s) (register ?s ! 7 - 1)"
    by (simp add: valid_index_def)
  have apart: "position (memory ?s) (register ?s ! 7 - 1) \<noteq> position (memory ?s) (pc ?s + 2)"
    "position (memory ?s) (register ?s ! 7 - 1) \<noteq> position (memory ?s) (pc ?s + 3)"
    by (simp_all add: position_def init_fields)
  have "(0::int) = 7 \<longleftrightarrow> (1::int) = 7"
    by simp
  from push_pop_round_trip [OF inv code _ _ _ _ this slot apart]
  obtain s2 where one: "steps 2 ?s = Inr s2" "register s2 ! 1 = 42" "register s2 ! 7 = 244"
    "pc s2 = 4"
    by (auto simp: init_fields)
  have inv': "cpu_inv ?u"
    by (simp add: cpu_inv_def init_fields init_register)
  have code': "ram_read ?u (pc ?u) = Inr PUSH" "ram_read ?u (pc ?u + 1) = Inr 7"
    "ram_read ?u (pc ?u + 2) = Inr POP" "ram_read ?u (pc ?u + 3) = Inr 7"
    by (simp_all add: ram_read_def getitem_def valid_index_def position_def init_fields)
  have slot': "valid_index (memory ?u) (register ?u ! 7 - 1)"
    by (simp add: valid_index_def init_register)
  have apart': "position (memory ?u) (register ?u ! 7 - 1) \<noteq> position (memory ?u) (pc ?u + 2)"
    "position (memory ?u) (register ?u ! 7 - 1) \<noteq> position (memory ?u) (pc ?u + 3)"
    by (simp_all add: position_def init_fields init_register)
  have "(7::int) = 7 \<longleftrightarrow> (7::int) = 7"
    by simp
  from push_pop_round_trip [OF inv' code' _ _ _ _ this slot' apart']
  obtain u2 where two: "steps 2 ?u = Inr u2" "register u2 ! 7 = 244" "pc u2 = 4"
    by (auto simp: init_fields init_register)
  from one two inv inv' show ?thesis
    by blast
qed

text \<open>
  C4 as stated fails where one of the two registers is the stack pointer. PUSH 7 then
  POP 0 from the initial state leaves 243 in register 0, where register 7 held 244.
  PUSH 0 then POP 7 with 5 in register 0 leaves 6 in register 7: neither the pushed
  value nor the stack pointer from before the PUSH.
\<close>

theorem push_pop_sp_register_counterexample:
  "steps 2 (init\<lparr>memory := [PUSH, 7, POP, 0] @ replicate 252 0\<rparr>) =
     Inr (init\<lparr>register := [243, 0, 0, 0, 0, 0, 0, 244],
               memory := ([PUSH, 7, POP, 0] @ replicate 252 0)[243 := 243], pc := 4\<rparr>)
   \<and> register init ! 7 = 244
   \<and> steps 2 (init\<lparr>register := [5, 0, 0, 0, 0, 0, 0, 244],
                   memory := [PUSH, 0, POP, 7] @ replicate 252 0\<rparr>) =
     Inr (init\<lparr>register := [5, 0, 0, 0, 0, 0, 0, 6],
               memory := ([PUSH, 0, POP, 7] @ replicate 252 0)[243 := 5], pc := 4\<rparr>)"
  by code_simp

section \<open>LDI followed by PRN\<close>

lemma handle_ldi_effect:
  assumes "length (register s) = 8" "0 \<le> r" "r \<le> 7"
  shows "handle_ldi [r, v] s = Inr (s\<lparr>register := (register s)[nat r := v], pc := pc s + 3\<rparr>)"
  using assms by (simp add: handle_ldi_def operand_0 operand_1 and_then_Inr reg_set_in_range)

lemma handle_prn_effect:
  assumes "length (register s) = 8" "0 \<le> r" "r \<le> 7"
  shows "handle_prn [r] s =
    Inr (s\<lparr>stdout := stdout s @ [str_int (register s ! nat r)], pc := pc s + 2\<rparr>)"
  using assms
  by (simp add: handle_prn_def operand_0 and_then_Inr reg_get_in_range print_def)

text \<open>
  The line printed for a natural number is its decimal numeral: reading the characters
  as digits, most significant first, gives the number back.
\<close>

lemma digit_char_value: "d < 10 \<Longrightarrow> (of_char (char_of (48 + d :: nat)) :: nat) = 48 + d"
  by (simp add: of_char_of)

lemma decimal_value:
  "foldl (\<lambda>acc c. 10 * acc + (of_char c - 48)) 0 (decimal n) = n"
proof (induction n rule: decimal.induct)
  case (1 n)
  show ?case
  proof (cases "n < 10")
    case True
    then show ?thesis
      by (simp add: decimal.simps [of n] digit_char_value)
  next
    case False
    with "1.IH" have "foldl (\<lambda>acc c. 10 * acc + (of_char c - 48)) 0 (decimal (n div 10)) = n div 10"
      by simp
    with False show ?thesis
      by (simp add: decimal.simps [of n] digit_char_value)
  qed
qed

text \<open>
  C8. LDI \<open>reg\<close> \<open>imm\<close> followed by PRN \<open>reg\<close> prints one line, the decimal numeral
  of \<open>imm\<close>, and leaves the program counter 5 above its value before the LDI. This
  holds for every integer \<open>imm\<close>, in particular for every byte.
\<close>

theorem ldi_prn_prints_immediate:
  assumes inv: "cpu_inv s"
    and code: "ram_read s (pc s) = Inr LDI" "ram_read s (pc s + 1) = Inr reg"
      "ram_read s (pc s + 2) = Inr imm" "ram_read s (pc s + 3) = Inr PRN"
      "ram_read s (pc s + 4) = Inr reg"
    and reg: "0 \<le> reg" "reg \<le> 7"
  shows "\<exists>s2. steps 2 s = Inr s2
       \<and> stdout s2 = stdout s @ [str_int imm]
       \<and> pc s2 = pc s + 5
       \<and> register s2 ! nat reg = imm"
proof -
  from inv have len: "length (register s) = 8"
    by (simp add: cpu_inv_def)
  let ?s1 = "s\<lparr>register := (register s)[nat reg := imm], pc := pc s + 3\<rparr>"
  let ?s2 = "?s1\<lparr>stdout := stdout ?s1 @ [str_int (register ?s1 ! nat reg)], pc := pc ?s1 + 2\<rparr>"
  have "step s = handle_ldi [reg, imm] s"
    using code(1) operand_count_values(10) branchtable_values(2) code(2,3)
    by (rule step_two_operands)
  then have first: "step s = Inr ?s1"
    using len reg by (simp add: handle_ldi_effect)
  have len1: "length (register ?s1) = 8"
    using len by simp
  have "ram_read ?s1 (pc s + 3) = Inr PRN" "ram_read ?s1 (pc s + 4) = Inr reg"
    using code(4,5) by (simp_all add: ram_read_Inr_iff)
  moreover have "pc ?s1 = pc s + 3" "pc ?s1 + 1 = pc s + 4"
    by simp_all
  ultimately have next_op: "ram_read ?s1 (pc ?s1) = Inr PRN"
    and next_arg: "ram_read ?s1 (pc ?s1 + 1) = Inr reg"
    by (simp_all only:)
  have "step ?s1 = handle_prn [reg] ?s1"
    using next_op operand_count_values(3) branchtable_values(3) next_arg
    by (rule step_one_operand)
  also have "\<dots> = Inr ?s2"
    using len1 reg by (rule handle_prn_effect)
  finally have second: "step ?s1 = Inr ?s2" .
  have whole: "steps 2 s = Inr ?s2"
    by (simp only: steps_2 first and_then_Inr second)
  have loaded: "register ?s1 ! nat reg = imm"
    using len reg by simp
  have "stdout ?s2 = stdout s @ [str_int imm]" "pc ?s2 = pc s + 5" "register ?s2 ! nat reg = imm"
    using loaded by simp_all
  with whole show ?thesis
    by blast
qed

lemma str_int_200: "str_int 200 = ''200''"
  by code_simp

theorem ldi_prn_prints_immediate_witness:
  "cpu_inv (init\<lparr>memory := [LDI, 3, 200, PRN, 3] @ replicate 251 0\<rparr>)
   \<and> (\<exists>s2. steps 2 (init\<lparr>memory := [LDI, 3, 200, PRN, 3] @ replicate 251 0\<rparr>) = Inr s2
         \<and> stdout s2 = [''200''] \<and> pc s2 = 5)"
proof -
  let ?s = "init\<lparr>memory := [LDI, 3, 200, PRN, 3] @ replicate 251 0\<rparr>"
  have inv: "cpu_inv ?s"
    by (simp add: cpu_inv_def init_fields init_register)
  have code: "ram_read ?s (pc ?s) = Inr LDI" "ram_read ?s (pc ?s + 1) = Inr 3"
    "ram_read ?s (pc ?s + 2) = Inr 200" "ram_read ?s (pc ?s + 3) = Inr PRN"
    "ram_read ?s (pc ?s + 4) = Inr 3"
    by (simp_all add: ram_read_def getitem_def valid_index_def position_def init_fields)
  from ldi_prn_prints_immediate [OF inv code]
  obtain s2 where "steps 2 ?s = Inr s2" "stdout s2 = [''200'']" "pc s2 = 5"
    by (auto simp: init_fields str_int_200)
  with inv show ?thesis
    by blast
qed

section \<open>Operand fetch\<close>

lemma mod4_bits:
  "(y::int) mod 4 = (if odd y then 1 else 0) + (if odd (y div 2) then 2 else 0)"
  by presburger

lemma and_3_eq_mod: "and (x::int) 3 = x mod 4"
proof -
  have "and x 3 = take_bit 2 x"
    by (simp add: take_bit_eq_mask mask_eq_exp_minus_1)
  then show ?thesis
    by (simp add: take_bit_eq_mod)
qed

lemma operand_count_bits:
  "operand_count ir = (if bit ir 6 then 1 else 0) + (if bit ir 7 then 2 else 0)"
proof -
  have "(ir div 64) div 2 = ir div 128"
    by (simp add: zdiv_zmult2_eq)
  then show ?thesis
    using mod4_bits [of "ir div 64"]
    by (simp add: operand_count_def and_3_eq_mod drop_bit_eq_div bit_iff_odd)
qed

lemma read_operands_eq:
  "read_operands s xs acc =
    (if \<forall>i \<in> set xs. valid_index (memory s) (pc s + i)
     then Inr (acc @ map (\<lambda>i. memory s ! position (memory s) (pc s + i)) xs)
     else Inl (IndexError, s))"
  by (induction xs arbitrary: acc) (simp_all add: ram_read_def getitem_def and_then_def)

lemma ram_read_cases:
  "ram_read s a =
    (if valid_index (memory s) a then Inr (memory s ! position (memory s) a)
     else Inl (IndexError, s))"
  by (simp add: ram_read_def getitem_def)

lemma read_operands_Inr_iff:
  "read_operands s [1 .. c] [] = Inr operands \<longleftrightarrow>
     length operands = nat c
     \<and> (\<forall>k < length operands. ram_read s (pc s + 1 + int k) = Inr (operands ! k))"
proof
  assume "read_operands s [1 .. c] [] = Inr operands"
  then have valid: "\<forall>i \<in> set [1 .. c]. valid_index (memory s) (pc s + i)"
    and ops: "operands = map (\<lambda>i. memory s ! position (memory s) (pc s + i)) [1 .. c]"
    by (simp_all add: read_operands_eq split: if_splits)
  from ops have len: "length operands = nat c"
    by simp
  have "ram_read s (pc s + 1 + int k) = Inr (operands ! k)" if "k < length operands" for k
  proof -
    from that len have k: "1 + int k \<le> c"
      by simp
    then have nth: "[1 .. c] ! k = 1 + int k"
      by (rule nth_upto)
    from k have "1 + int k \<in> set [1 .. c]"
      by simp
    with valid have "valid_index (memory s) (pc s + (1 + int k))"
      by blast
    then show ?thesis
      using that len nth by (simp add: ops ram_read_cases add.assoc)
  qed
  with len show "length operands = nat c
     \<and> (\<forall>k < length operands. ram_read s (pc s + 1 + int k) = Inr (operands ! k))"
    by blast
next
  assume rhs: "length operands = nat c
     \<and> (\<forall>k < length operands. ram_read s (pc s + 1 + int k) = Inr (operands ! k))"
  then have len: "length operands = nat c"
    and rd: "\<And>k. k < length operands \<Longrightarrow> ram_read s (pc s + 1 + int k) = Inr (operands ! k)"
    by blast+
  have at: "valid_index (memory s) (pc s + i)
      \<and> memory s ! position (memory s) (pc s + i) = operands ! nat (i - 1)"
    if "i \<in> set [1 .. c]" for i
  proof -
    from that len have "nat (i - 1) < length operands" and "1 + int (nat (i - 1)) = i"
      by auto
    with rd [of "nat (i - 1)"] have "ram_read s (pc s + i) = Inr (operands ! nat (i - 1))"
      by (simp add: add.assoc)
    then show ?thesis
      by (simp add: ram_read_cases split: if_splits)
  qed
  have "map (\<lambda>i. memory s ! position (memory s) (pc s + i)) [1 .. c] = operands"
  proof (rule nth_equalityI)
    show "length (map (\<lambda>i. memory s ! position (memory s) (pc s + i)) [1 .. c]) = length operands"
      using len by simp
  next
    fix k
    assume "k < length (map (\<lambda>i. memory s ! position (memory s) (pc s + i)) [1 .. c])"
    then have k: "1 + int k \<le> c"
      by simp
    then have nth: "[1 .. c] ! k = 1 + int k"
      by (rule nth_upto)
    from k have "1 + int k \<in> set [1 .. c]"
      by simp
    from at [OF this] k nth
    show "map (\<lambda>i. memory s ! position (memory s) (pc s + i)) [1 .. c] ! k = operands ! k"
      by simp
  qed
  moreover from at have "\<forall>i \<in> set [1 .. c]. valid_index (memory s) (pc s + i)"
    by blast
  ultimately show "read_operands s [1 .. c] [] = Inr operands"
    by (simp add: read_operands_eq)
qed

lemma branchtable_Some_cases:
  assumes "branchtable ir = Some handler"
  shows "ir \<in> {HLT, LDI, PRN, MUL, ADD, CMP, PUSH, POP, CALL, RET, JMP, JNE, JEQ}"
  using assms by (simp add: branchtable_def split: if_splits)

lemma registered_operand_count:
  assumes "branchtable ir = Some handler"
  shows "0 \<le> operand_count ir \<and> operand_count ir \<le> 2"
  using branchtable_Some_cases [OF assms] by (auto simp: operand_count_values)

text \<open>
  C6. In a pass through the loop body the operand count is the two-bit number formed by
  bits 6 and 7 of the byte fetched at the program counter. The operand list is made of
  exactly that many bytes, the ones at PC+1, PC+2, ... in this order, and a registered
  handler is called with this list; for a registered opcode the count is at most 2, so
  the addresses are PC+1 and PC+2.
\<close>

theorem operands_fetched_by_count:
  assumes "ram_read s (pc s) = Inr ir"
  shows "operand_count ir = (if bit ir 6 then 1 else 0) + (if bit ir 7 then 2 else 0)
       \<and> (read_operands s [1 .. operand_count ir] [] = Inr operands \<longleftrightarrow>
            length operands = nat (operand_count ir)
            \<and> (\<forall>k < length operands. ram_read s (pc s + 1 + int k) = Inr (operands ! k)))
       \<and> (branchtable ir = Some handler
            \<and> read_operands s [1 .. operand_count ir] [] = Inr operands
          \<longrightarrow> step s = handler operands s)
       \<and> (branchtable ir = Some handler \<longrightarrow> operand_count ir \<le> 2)"
proof -
  have "step s = handler operands s"
    if "branchtable ir = Some handler" "read_operands s [1 .. operand_count ir] [] = Inr operands"
    using assms that by (simp add: step_def and_then_Inr)
  then show ?thesis
    using operand_count_bits [of ir] read_operands_Inr_iff [of s "operand_count ir" operands]
      registered_operand_count [of ir handler]
    by blast
qed


theorem operands_fetched_by_count_witness:
  "ram_read (init\<lparr>memory := [LDI, 3, 200] @ replicate 253 0\<rparr>)
      (pc (init\<lparr>memory := [LDI, 3, 200] @ replicate 253 0\<rparr>)) = Inr LDI
   \<and> operand_count LDI = 2
   \<and> branchtable LDI = Some handle_ldi
   \<and> read_operands (init\<lparr>memory := [LDI, 3, 200] @ replicate 253 0\<rparr>)
        [1 .. operand_count LDI] [] = Inr [3, 200]
   \<and> step (init\<lparr>memory := [LDI, 3, 200] @ replicate 253 0\<rparr>) =
        handle_ldi [3, 200] (init\<lparr>memory := [LDI, 3, 200] @ replicate 253 0\<rparr>)"
proof -
  let ?s = "init\<lparr>memory := [LDI, 3, 200] @ replicate 253 0\<rparr>"
  have fetch: "ram_read ?s (pc ?s) = Inr LDI"
    by (simp add: ram_read_def getitem_def valid_index_def position_def init_fields)
  have bytes: "ram_read ?s (pc ?s + 1 + int k) = Inr ([3, 200] ! k)" if "k < 2" for k
  proof -
    from that have "k = 0 \<or> k = 1"
      by auto
    then show ?thesis
      by (auto simp: ram_read_def getitem_def valid_index_def position_def init_fields)
  qed
  note fact = operands_fetched_by_count [OF fetch, of "[3, 200]" handle_ldi]
  from fact bytes have ops: "read_operands ?s [1 .. operand_count LDI] [] = Inr [3, 200]"
    by (simp add: operand_count_values)
  with fact have "step ?s = handle_ldi [3, 200] ?s"
    by (simp add: branchtable_values)
  with fetch ops show ?thesis
    by (simp add: operand_count_values branchtable_values)
qed

section \<open>Unregistered opcodes\<close>

lemma read_operands_stdout:
  "read_operands (s\<lparr>stdout := out\<rparr>) xs acc = Inr operands \<longleftrightarrow>
   read_operands s xs acc = Inr operands"
  by (simp add: read_operands_eq)

lemma ram_read_stdout:
  "ram_read (s\<lparr>stdout := out\<rparr>) a = Inr v \<longleftrightarrow> ram_read s a = Inr v"
  by (simp add: ram_read_Inr_iff)

lemma step_unregistered:
  assumes "ram_read s (pc s) = Inr ir" "branchtable ir = None"
    and "read_operands s [1 .. operand_count ir] [] = Inr operands"
  shows "step s = Inr (s\<lparr>stdout := stdout s @ [''Instruction not found!'']\<rparr>)"
  using assms by (simp add: step_def and_then_Inr print_def)

lemma steps_unregistered:
  assumes "ram_read s (pc s) = Inr ir" "branchtable ir = None"
    and "read_operands s [1 .. operand_count ir] [] = Inr operands"
  shows "steps n s = Inr (s\<lparr>stdout := stdout s @ replicate n ''Instruction not found!''\<rparr>)"
  using assms
proof (induction n arbitrary: s)
  case 0
  then show ?case by simp
next
  case (Suc n)
  let ?s' = "s\<lparr>stdout := stdout s @ [''Instruction not found!'']\<rparr>"
  from Suc.prems have one: "step s = Inr ?s'"
    by (rule step_unregistered)
  have "steps n ?s' = Inr (?s'\<lparr>stdout := stdout ?s' @ replicate n ''Instruction not found!''\<rparr>)"
  proof (rule Suc.IH)
    show "ram_read ?s' (pc ?s') = Inr ir"
      using Suc.prems(1) by (simp add: ram_read_Inr_iff)
    show "branchtable ir = None"
      by (rule Suc.prems(2))
    show "read_operands ?s' [1 .. operand_count ir] [] = Inr operands"
      using Suc.prems(3) by (simp only: read_operands_stdout)
  qed
  with one show ?case
    by (simp add: and_then_Inr replicate_append_same [symmetric])
qed

lemma loop_unregistered:
  assumes "ram_read s (pc s) = Inr ir" "branchtable ir = None"
    and "read_operands s [1 .. operand_count ir] [] = Inr operands"
  shows "loop s = None"
proof (rule ccontr)
  assume "loop s \<noteq> None"
  then obtain y where ends: "loop s = Some y"
    by blast
  have "\<not> (\<exists>ir operands. ram_read s (pc s) = Inr ir \<and> branchtable ir = None
      \<and> read_operands s [1 .. operand_count ir] [] = Inr operands)"
  proof (rule loop.raw_induct
      [where P = "\<lambda>s y. \<not> (\<exists>ir operands. ram_read s (pc s) = Inr ir \<and> branchtable ir = None
        \<and> read_operands s [1 .. operand_count ir] [] = Inr operands)", OF _ ends])
    fix f :: "cpu \<Rightarrow> (error \<times> cpu) option" and t :: cpu and z :: "error \<times> cpu"
    assume IH: "\<And>x y. f x = Some y \<Longrightarrow>
        \<not> (\<exists>ir operands. ram_read x (pc x) = Inr ir \<and> branchtable ir = None
          \<and> read_operands x [1 .. operand_count ir] [] = Inr operands)"
      and body: "(case step t of Inl e \<Rightarrow> Some e | Inr s' \<Rightarrow> f s') = Some z"
    show "\<not> (\<exists>ir operands. ram_read t (pc t) = Inr ir \<and> branchtable ir = None
        \<and> read_operands t [1 .. operand_count ir] [] = Inr operands)"
    proof
      assume "\<exists>ir operands. ram_read t (pc t) = Inr ir \<and> branchtable ir = None
        \<and> read_operands t [1 .. operand_count ir] [] = Inr operands"
      then obtain ir operands where stuck: "ram_read t (pc t) = Inr ir" "branchtable ir = None"
        "read_operands t [1 .. operand_count ir] [] = Inr operands"
        by blast
      let ?t' = "t\<lparr>stdout := stdout t @ [''Instruction not found!'']\<rparr>"
      from stuck have "step t = Inr ?t'"
        by (rule step_unregistered)
      with body have "f ?t' = Some z"
        by simp
      then have "\<not> (\<exists>ir operands. ram_read ?t' (pc ?t') = Inr ir \<and> branchtable ir = None
        \<and> read_operands ?t' [1 .. operand_count ir] [] = Inr operands)"
        by (rule IH)
      moreover have "ram_read ?t' (pc ?t') = Inr ir"
        using stuck(1) by (simp add: ram_read_Inr_iff)
      moreover have "read_operands ?t' [1 .. operand_count ir] [] = Inr operands"
        using stuck(3) by (simp only: read_operands_stdout)
      ultimately show False
        using stuck(2) by blast
    qed
  qed
  with assms show False
    by blast
qed

text \<open>
  C3. When the byte fetched at the program counter has no entry in the dispatch table
  (and the operand bytes its bits 6 and 7 ask for lie inside the memory, so that the
  fetch itself succeeds), the pass through the loop body prints
  \<^verbatim>\<open>Instruction not found!\<close> and changes nothing else: program counter, registers,
  flags and memory are as before. The loop goes on; since the next pass meets the same
  byte, every further pass does the same and the loop never ends.
\<close>

theorem unregistered_opcode_is_skipped:
  assumes "ram_read s (pc s) = Inr ir" and "branchtable ir = None"
    and "read_operands s [1 .. operand_count ir] [] = Inr operands"
  shows "step s = Inr (s\<lparr>stdout := stdout s @ [''Instruction not found!'']\<rparr>)
       \<and> steps n s = Inr (s\<lparr>stdout := stdout s @ replicate n ''Instruction not found!''\<rparr>)
       \<and> loop s = None
       \<and> run s = None"
proof -
  let ?s0 = "print ''Running CPU...'' s"
  have "ram_read ?s0 (pc ?s0) = Inr ir"
    using assms(1) by (simp add: print_def ram_read_Inr_iff)
  moreover have "read_operands ?s0 [1 .. operand_count ir] [] = Inr operands"
    using assms(3) by (simp only: print_def read_operands_stdout)
  ultimately have "loop ?s0 = None"
    using assms(2) loop_unregistered by blast
  then have "run s = None"
    by (simp add: run_def)
  with step_unregistered [OF assms] steps_unregistered [OF assms] loop_unregistered [OF assms]
  show ?thesis
    by blast
qed

lemma branchtable_0: "branchtable 0 = None"
  by (simp add: branchtable_def opcode_defs)

theorem unregistered_opcode_is_skipped_witness:
  "ram_read init (pc init) = Inr 0 \<and> branchtable 0 = None
   \<and> read_operands init [1 .. operand_count 0] [] = Inr []
   \<and> step init = Inr (init\<lparr>stdout := [''Instruction not found!'']\<rparr>)
   \<and> loop init = None \<and> run init = None"
proof -
  have fetch: "ram_read init (pc init) = Inr 0"
    by (simp add: ram_read_def getitem_def valid_index_def position_def init_def)
  have ops: "read_operands init [1 .. operand_count 0] [] = Inr []"
    by (simp add: operand_count_def)
  from unregistered_opcode_is_skipped [OF fetch branchtable_0 ops] fetch ops branchtable_0
  show ?thesis
    by (simp add: init_fields)
qed

section \<open>Every instruction keeps the state well formed\<close>

lemma reg_set_InrD:
  "reg_set s i v = Inr s' \<Longrightarrow> \<exists>rs. s' = s\<lparr>register := rs\<rparr> \<and> length rs = length (register s)"
  by (auto simp: reg_set_def setitem_def split: if_splits)

lemma ram_write_InrD:
  "ram_write s a v = Inr s' \<Longrightarrow> \<exists>m. s' = s\<lparr>memory := m\<rparr> \<and> length m = length (memory s)"
  by (auto simp: ram_write_def setitem_def split: if_splits)

lemma reg_set_inv: "reg_set s i v = Inr s' \<Longrightarrow> cpu_inv s \<Longrightarrow> cpu_inv s'"
  by (auto simp: cpu_inv_def dest!: reg_set_InrD)

lemma ram_write_inv: "ram_write s a v = Inr s' \<Longrightarrow> cpu_inv s \<Longrightarrow> cpu_inv s'"
  by (auto simp: cpu_inv_def dest!: ram_write_InrD)

lemma cpu_inv_pc: "cpu_inv (s\<lparr>pc := p\<rparr>) = cpu_inv s"
  by (simp add: cpu_inv_def)

lemma cpu_inv_fl: "cpu_inv (s\<lparr>fl := f\<rparr>) = cpu_inv s"
  by (simp add: cpu_inv_def)

lemma cpu_inv_print: "cpu_inv (print line s) = cpu_inv s"
  by (simp add: cpu_inv_def print_def)

lemma and_then_InrE:
  assumes "and_then m f = Inr y"
  obtains x where "m = Inr x" "f x = Inr y"
  using assms by (cases m) (simp_all add: and_then_def)

lemma push_inv: "push operands s = Inr s' \<Longrightarrow> cpu_inv s \<Longrightarrow> cpu_inv s'"
  unfolding push_def
  by (elim and_then_InrE) (auto simp: cpu_inv_pc dest: reg_set_inv ram_write_inv)

lemma pop_inv: "pop operands s = Inr s' \<Longrightarrow> cpu_inv s \<Longrightarrow> cpu_inv s'"
  unfolding pop_def
  by (elim and_then_InrE) (auto simp: cpu_inv_pc dest: reg_set_inv ram_write_inv)

lemma alu_inv: "alu op a b s = Inr s' \<Longrightarrow> cpu_inv s \<Longrightarrow> cpu_inv s'"
  unfolding alu_def
  by (auto simp: cpu_inv_fl split: if_splits elim!: and_then_InrE dest: reg_set_inv)

lemma handle_ldi_inv: "handle_ldi operands s = Inr s' \<Longrightarrow> cpu_inv s \<Longrightarrow> cpu_inv s'"
  unfolding handle_ldi_def
  by (elim and_then_InrE) (auto simp: cpu_inv_pc dest: reg_set_inv)

lemma handle_prn_inv: "handle_prn operands s = Inr s' \<Longrightarrow> cpu_inv s \<Longrightarrow> cpu_inv s'"
  unfolding handle_prn_def
  by (elim and_then_InrE) (auto simp: cpu_inv_pc cpu_inv_print Let_def)

lemma handle_mul_inv: "handle_mul operands s = Inr s' \<Longrightarrow> cpu_inv s \<Longrightarrow> cpu_inv s'"
  unfolding handle_mul_def
  by (elim and_then_InrE) (auto simp: cpu_inv_pc dest: alu_inv)

lemma handle_add_inv: "handle_add operands s = Inr s' \<Longrightarrow> cpu_inv s \<Longrightarrow> cpu_inv s'"
  unfolding handle_add_def
  by (elim and_then_InrE) (auto simp: cpu_inv_pc dest: alu_inv)

lemma handle_cmp_inv: "handle_cmp operands s = Inr s' \<Longrightarrow> cpu_inv s \<Longrightarrow> cpu_inv s'"
  unfolding handle_cmp_def
  by (elim and_then_InrE) (auto simp: cpu_inv_pc dest: alu_inv)

lemma call_inv: "call operands s = Inr s' \<Longrightarrow> cpu_inv s \<Longrightarrow> cpu_inv s'"
  unfolding call_def
  by (elim and_then_InrE) (auto simp: cpu_inv_pc dest: reg_set_inv ram_write_inv)

lemma ret_inv: "ret operands s = Inr s' \<Longrightarrow> cpu_inv s \<Longrightarrow> cpu_inv s'"
  unfolding ret_def Let_def
  by (elim and_then_InrE) (auto simp: cpu_inv_pc dest: reg_set_inv)

lemma jmp_inv: "jmp operands s = Inr s' \<Longrightarrow> cpu_inv s \<Longrightarrow> cpu_inv s'"
  unfolding jmp_def
  by (elim and_then_InrE) (auto simp: cpu_inv_pc)

lemma jne_inv: "jne operands s = Inr s' \<Longrightarrow> cpu_inv s \<Longrightarrow> cpu_inv s'"
  unfolding jne_def
  by (auto simp: cpu_inv_pc split: if_splits elim!: and_then_InrE)

lemma jeq_inv: "jeq operands s = Inr s' \<Longrightarrow> cpu_inv s \<Longrightarrow> cpu_inv s'"
  unfolding jeq_def
  by (auto simp: cpu_inv_pc split: if_splits elim!: and_then_InrE)

lemma handle_hlt_never_returns: "handle_hlt operands s \<noteq> Inr s'"
  by (simp add: handle_hlt_def)

lemma handler_inv:
  assumes "branchtable ir = Some handler" "handler operands s = Inr s'" "cpu_inv s"
  shows "cpu_inv s'"
proof -
  from assms(1) have "handler \<in> {handle_hlt, handle_ldi, handle_prn, handle_mul, handle_add,
      handle_cmp, push, pop, call, ret, jmp, jne, jeq}"
    by (auto simp: branchtable_def split: if_splits)
  with assms(2,3) show ?thesis
    by (auto simp: handle_hlt_never_returns
        dest: handle_ldi_inv handle_prn_inv handle_mul_inv handle_add_inv handle_cmp_inv
          push_inv pop_inv call_inv ret_inv jmp_inv jne_inv jeq_inv)
qed

lemma step_inv:
  assumes "step s = Inr s'" "cpu_inv s"
  shows "cpu_inv s'"
proof -
  from assms(1) obtain ir operands where
    body: "(case branchtable ir of Some handler \<Rightarrow> handler operands s
            | None \<Rightarrow> Inr (print ''Instruction not found!'' s)) = Inr s'"
    unfolding step_def by (elim and_then_InrE)
  show ?thesis
  proof (cases "branchtable ir")
    case None
    with body assms(2) show ?thesis
      by (auto simp: cpu_inv_print)
  next
    case (Some handler)
    with body have "handler operands s = Inr s'"
      by simp
    with Some show ?thesis
      using assms(2) by (rule handler_inv)
  qed
qed

lemma steps_inv: "steps n s = Inr s' \<Longrightarrow> cpu_inv s \<Longrightarrow> cpu_inv s'"
proof (induction n arbitrary: s)
  case 0
  then show ?case by simp
next
  case (Suc n)
  from Suc.prems(1) obtain s1 where "step s = Inr s1" "steps n s1 = Inr s'"
    by (auto elim: and_then_InrE)
  with Suc.prems(2) Suc.IH step_inv show ?case
    by blast
qed


section \<open>CALL and RET\<close>

lemma call_effect:
  assumes inv: "cpu_inv s"
    and operand: "ram_read s (pc s + 1) = Inr reg"
    and reg: "0 \<le> reg" "reg \<le> 7"
    and slot: "valid_index (memory s) (register s ! 7 - 1)"
    and apart: "position (memory s) (register s ! 7 - 1) \<noteq> position (memory s) (pc s + 1)"
  shows "call operands s =
    Inr (s\<lparr>register := (register s)[7 := register s ! 7 - 1],
          memory := (memory s)[position (memory s) (register s ! 7 - 1) := pc s + 2],
          pc := (register s)[7 := register s ! 7 - 1] ! nat reg\<rparr>)"
proof -
  from inv have len: "length (register s) = 8" and sp: "sp s = 7"
    by (simp_all add: cpu_inv_def)
  let ?top = "register s ! 7 - 1"
  let ?s1 = "s\<lparr>register := (register s)[7 := ?top]\<rparr>"
  let ?s2 = "s\<lparr>register := (register s)[7 := ?top],
               memory := (memory s)[position (memory s) ?top := pc s + 2]\<rparr>"
  have len1: "length (register ?s1) = 8" and len2: "length (register ?s2) = 8"
    using len by simp_all
  have top: "reg_get ?s1 7 = Inr ?top"
    using len by (simp add: reg_get_in_range [OF len1])
  have wr: "ram_write ?s1 ?top (pc s + 2) = Inr ?s2"
    using slot by (simp add: ram_write_valid)
  have rd: "ram_read ?s2 (pc s + 1) = Inr reg"
    using operand slot apart by (simp add: ram_read_Inr_iff getitem_update)
  have target: "reg_get ?s2 reg = Inr ((register s)[7 := ?top] ! nat reg)"
    using reg by (simp add: reg_get_in_range [OF len2])
  show ?thesis
    using len
    by (simp add: call_def sp reg_get_in_range reg_set_in_range and_then_Inr top wr rd target)
qed

lemma ret_effect:
  assumes inv: "cpu_inv s" and top: "ram_read s (register s ! 7) = Inr addr"
  shows "ret operands s =
    Inr (s\<lparr>pc := addr, register := (register s)[7 := register s ! 7 + 1]\<rparr>)"
proof -
  from inv have len: "length (register s) = 8" and sp: "sp s = 7"
    by (simp_all add: cpu_inv_def)
  let ?s1 = "s\<lparr>pc := addr\<rparr>"
  have len1: "length (register ?s1) = 8"
    using len by simp
  have cur: "reg_get ?s1 7 = Inr (register s ! 7)"
    using reg_get_in_range [OF len1, of 7] by simp
  have inc: "reg_set ?s1 7 v = Inr (s\<lparr>pc := addr, register := (register s)[7 := v]\<rparr>)" for v
    using reg_set_in_range [OF len1, of 7 v] by simp
  show ?thesis
    using len by (simp add: ret_def sp reg_get_in_range and_then_Inr top cur inc)
qed

lemma steps_Suc_end: "steps (Suc n) s = and_then (steps n s) step"
proof (induction n arbitrary: s)
  case 0
  show ?case
    by (simp add: and_then_Inr and_then_unit steps_0)
next
  case (Suc n)
  show ?case
  proof (cases "step s")
    case (Inl e)
    then show ?thesis
      by (simp add: and_then_Inl)
  next
    case (Inr s1)
    have "steps (Suc (Suc n)) s = steps (Suc n) s1"
      using Inr by (simp add: and_then_Inr)
    also have "\<dots> = and_then (steps n s1) step"
      by (rule Suc.IH)
    also have "steps n s1 = steps (Suc n) s"
      using Inr by (simp add: and_then_Inr)
    finally show ?thesis .
  qed
qed

text \<open>
  C5 (as amended). Where the cell below the stack pointer is an address of the memory
  other than the operand byte of the CALL, CALL \<open>reg\<close> decrements the stack pointer,
  stores PC + 2 in the memory cell it now names and continues at the address held in
  register \<open>reg\<close>; RET continues at the address found at the top of the stack and
  increments the stack pointer. Hence, when the code called runs \<open>n\<close> instructions and
  then meets RET with the stack pointer and the stored return address as CALL left them,
  execution resumes at the address of the CALL plus 2 with the stack pointer the caller
  had.
\<close>

theorem call_ret_round_trip:
  assumes inv: "cpu_inv s"
    and code: "ram_read s (pc s) = Inr CALL" "ram_read s (pc s + 1) = Inr reg"
    and reg: "0 \<le> reg" "reg \<le> 7"
    and slot: "valid_index (memory s) (register s ! 7 - 1)"
    and apart: "position (memory s) (register s ! 7 - 1) \<noteq> position (memory s) (pc s + 1)"
  shows "\<exists>s1. step s = Inr s1
       \<and> register s1 ! 7 = register s ! 7 - 1
       \<and> ram_read s1 (register s1 ! 7) = Inr (pc s + 2)
       \<and> pc s1 = register s1 ! nat reg
       \<and> (reg \<noteq> 7 \<longrightarrow> pc s1 = register s ! nat reg)
       \<and> (\<forall>t addr. cpu_inv t \<and> ram_read t (pc t) = Inr RET
              \<and> ram_read t (register t ! 7) = Inr addr
            \<longrightarrow> step t = Inr (t\<lparr>pc := addr, register := (register t)[7 := register t ! 7 + 1]\<rparr>))
       \<and> (\<forall>n t. steps n s1 = Inr t \<and> ram_read t (pc t) = Inr RET
              \<and> register t ! 7 = register s1 ! 7
              \<and> ram_read t (register t ! 7) = Inr (pc s + 2)
            \<longrightarrow> (\<exists>t'. steps (n + 2) s = Inr t' \<and> pc t' = pc s + 2
                  \<and> register t' ! 7 = register s ! 7))"
proof -
  from inv have len: "length (register s) = 8"
    by (simp add: cpu_inv_def)
  let ?top = "register s ! 7 - 1"
  let ?s1 = "s\<lparr>register := (register s)[7 := ?top],
          memory := (memory s)[position (memory s) ?top := pc s + 2],
          pc := (register s)[7 := ?top] ! nat reg\<rparr>"
  have "step s = call [reg] s"
    using code(1) operand_count_values(6) branchtable_values(9) code(2)
    by (rule step_one_operand)
  also have "\<dots> = Inr ?s1"
    using inv code(2) reg slot apart by (rule call_effect)
  finally have first: "step s = Inr ?s1" .
  have inv1: "cpu_inv ?s1"
    using first inv by (rule step_inv)
  have sp1: "register ?s1 ! 7 = ?top"
    using len by simp
  have "getitem (memory ?s1) ?top = Some (pc s + 2)"
    using slot by (simp add: getitem_update)
  then have stored: "ram_read ?s1 (register ?s1 ! 7) = Inr (pc s + 2)"
    using sp1 by (simp add: ram_read_Inr_iff)
  have target: "pc ?s1 = register ?s1 ! nat reg"
    by simp
  have target': "reg \<noteq> 7 \<longrightarrow> pc ?s1 = register s ! nat reg"
    using reg by simp
  have return: "step t = Inr (t\<lparr>pc := addr, register := (register t)[7 := register t ! 7 + 1]\<rparr>)"
    if "cpu_inv t" "ram_read t (pc t) = Inr RET" "ram_read t (register t ! 7) = Inr addr"
    for t addr
  proof -
    have "step t = ret [] t"
      using that(2) operand_count_values(2) branchtable_values(10) by (rule step_no_operand)
    with ret_effect [OF that(1,3)] show ?thesis
      by simp
  qed
  have resume: "\<exists>t'. steps (n + 2) s = Inr t' \<and> pc t' = pc s + 2
      \<and> register t' ! 7 = register s ! 7"
    if body: "steps n ?s1 = Inr t" and at_ret: "ram_read t (pc t) = Inr RET"
      and balanced: "register t ! 7 = register ?s1 ! 7"
      and intact: "ram_read t (register t ! 7) = Inr (pc s + 2)"
    for n t
  proof -
    let ?t' = "t\<lparr>pc := pc s + 2, register := (register t)[7 := register t ! 7 + 1]\<rparr>"
    have invt: "cpu_inv t"
      using body inv1 by (rule steps_inv)
    then have lent: "length (register t) = 8"
      by (simp add: cpu_inv_def)
    have last: "step t = Inr ?t'"
      using invt at_ret intact by (rule return)
    have "steps (n + 2) s = steps (Suc (Suc n)) s"
      by simp
    also have "\<dots> = steps (Suc n) ?s1"
      using first by (simp add: and_then_Inr)
    also have "\<dots> = and_then (steps n ?s1) step"
      by (rule steps_Suc_end)
    also have "\<dots> = Inr ?t'"
      using body last by (simp add: and_then_Inr)
    finally have "steps (n + 2) s = Inr ?t'" .
    moreover have "pc ?t' = pc s + 2"
      by simp
    moreover have "register ?t' ! 7 = register s ! 7"
      using lent balanced sp1 by simp
    ultimately show ?thesis
      by blast
  qed
  from return have return_all:
    "\<forall>t addr. cpu_inv t \<and> ram_read t (pc t) = Inr RET
        \<and> ram_read t (register t ! 7) = Inr addr
      \<longrightarrow> step t = Inr (t\<lparr>pc := addr, register := (register t)[7 := register t ! 7 + 1]\<rparr>)"
    by blast
  from resume have resume_all:
    "\<forall>n t. steps n ?s1 = Inr t \<and> ram_read t (pc t) = Inr RET
        \<and> register t ! 7 = register ?s1 ! 7
        \<and> ram_read t (register t ! 7) = Inr (pc s + 2)
      \<longrightarrow> (\<exists>t'. steps (n + 2) s = Inr t' \<and> pc t' = pc s + 2
            \<and> register t' ! 7 = register s ! 7)"
    by blast
  from first sp1 stored target target' return_all resume_all show ?thesis
    by (intro exI [of _ ?s1] conjI) assumption+
qed


theorem call_ret_round_trip_witness:
  "cpu_inv (init\<lparr>register := [3, 0, 0, 0, 0, 0, 0, 244],
                  memory := [CALL, 0, HLT, LDI, 1, 9, RET] @ replicate 249 0\<rparr>)
   \<and> (\<exists>t'. steps (1 + 2) (init\<lparr>register := [3, 0, 0, 0, 0, 0, 0, 244],
                  memory := [CALL, 0, HLT, LDI, 1, 9, RET] @ replicate 249 0\<rparr>) = Inr t'
         \<and> pc t' = 2 \<and> register t' ! 7 = 244)"
proof -
  let ?s = "init\<lparr>register := [3, 0, 0, 0, 0, 0, 0, 244],
                  memory := [CALL, 0, HLT, LDI, 1, 9, RET] @ replicate 249 0\<rparr>"
  let ?s1 = "init\<lparr>register := [3, 0, 0, 0, 0, 0, 0, 243],
                  memory := ([CALL, 0, HLT, LDI, 1, 9, RET] @ replicate 249 0)[243 := 2],
                  pc := 3\<rparr>"
  let ?t = "init\<lparr>register := [3, 9, 0, 0, 0, 0, 0, 243],
                  memory := ([CALL, 0, HLT, LDI, 1, 9, RET] @ replicate 249 0)[243 := 2],
                  pc := 6\<rparr>"
  have inv: "cpu_inv ?s"
    by (simp add: cpu_inv_def init_fields)
  have code: "ram_read ?s (pc ?s) = Inr CALL" "ram_read ?s (pc ?s + 1) = Inr 0"
    by (simp_all add: ram_read_def getitem_def valid_index_def position_def init_fields)
  have slot: "valid_index (memory ?s) (register ?s ! 7 - 1)"
    by (simp add: valid_index_def)
  have apart: "position (memory ?s) (register ?s ! 7 - 1) \<noteq> position (memory ?s) (pc ?s + 1)"
    by (simp add: position_def init_fields)
  from call_ret_round_trip [OF inv code _ _ slot apart]
  obtain s1 where first: "step ?s = Inr s1"
    and resume: "\<forall>n t. steps n s1 = Inr t \<and> ram_read t (pc t) = Inr RET
              \<and> register t ! 7 = register s1 ! 7
              \<and> ram_read t (register t ! 7) = Inr (pc ?s + 2)
            \<longrightarrow> (\<exists>t'. steps (n + 2) ?s = Inr t' \<and> pc t' = pc ?s + 2
                  \<and> register t' ! 7 = register ?s ! 7)"
    by auto
  have "step ?s = Inr ?s1"
    by code_simp
  with first have s1: "s1 = ?s1"
    by simp
  have body: "steps 1 ?s1 = Inr ?t"
    by code_simp
  have at_ret: "ram_read ?t (pc ?t) = Inr RET"
    by code_simp
  have balanced: "register ?t ! 7 = register ?s1 ! 7"
    by simp
  have intact: "ram_read ?t (register ?t ! 7) = Inr (pc ?s + 2)"
    by code_simp
  from resume [rule_format, of 1 ?t] body at_ret balanced intact
  obtain t' where "steps (1 + 2) ?s = Inr t'" "pc t' = pc ?s + 2"
    "register t' ! 7 = register ?s ! 7"
    unfolding s1 by blast
  then have "steps (1 + 2) ?s = Inr t' \<and> pc t' = 2 \<and> register t' ! 7 = 244"
    by (simp add: init_fields)
  with inv show ?thesis
    by blast
qed

text \<open>
  C5 as stated fails where the return address lands on the operand byte of the CALL,
  because the handler reads that byte after it has stored the return address. LDI 7 5
  followed by CALL 7 at address 3 puts the stack pointer at 4, the address of the
  operand; the return address 5 replaces the operand 7, and execution continues at the
  content of register 5, which is 0, not at the content of register 7.
\<close>

theorem call_operand_overwritten_counterexample:
  "steps 2 (init\<lparr>memory := [LDI, 7, 5, CALL, 7] @ replicate 251 0\<rparr>) =
     Inr (init\<lparr>register := [0, 0, 0, 0, 0, 0, 0, 4],
               memory := ([LDI, 7, 5, CALL, 7] @ replicate 251 0)[4 := 5], pc := 0\<rparr>)
   \<and> steps 1 (init\<lparr>memory := [LDI, 7, 5, CALL, 7] @ replicate 251 0\<rparr>) =
     Inr (init\<lparr>register := [0, 0, 0, 0, 0, 0, 0, 5], pc := 3\<rparr>
            \<lparr>memory := [LDI, 7, 5, CALL, 7] @ replicate 251 0\<rparr>)
   \<and> (0 :: int) \<noteq> [0, 0, 0, 0, 0, 0, 0, 4] ! 7
   \<and> (0 :: int) \<noteq> [0, 0, 0, 0, 0, 0, 0, 5] ! 7"
  by code_simp

end
